theory Spec2Isabelle
  imports Complex_Main "HOL-Library.Multiset"
begin

section \<open>The multiplication trainer: constants and data\<close>

text \<open>
  The logic functions of \<^verbatim>\<open>streamlit_app.py\<close> (the part marked "No Streamlit") and the two
  callbacks that build a state. The session dictionary always carries the same seven keys
  (\<^verbatim>\<open>initialize_game_state\<close> is its only constructor), so it is a record; a value that may be
  \<^verbatim>\<open>None\<close> is an option. The status strings are the three the code ever writes
  (\<^verbatim>\<open>'welcome'\<close>, \<^verbatim>\<open>'playing'\<close>, \<^verbatim>\<open>'game_over'\<close>), capitalised here. Calls to the
  logger write a line to standard output and touch nothing else; they are left out.
\<close>

definition TOTAL_ROUNDS :: int where
  "TOTAL_ROUNDS = 20"

definition SESSION_TIME_LIMIT_SECONDS :: real where
  "SESSION_TIME_LIMIT_SECONDS = 300"

definition PHASE_1_RANGE :: "int \<times> int" where
  "PHASE_1_RANGE = (1, 10)"

definition PHASE_2_RANGE :: "int \<times> int" where
  "PHASE_2_RANGE = (11, 20)"

definition PHASE_1_END_ROUND :: int where
  "PHASE_1_END_ROUND = 7"

definition PHASE_2_END_ROUND :: int where
  "PHASE_2_END_ROUND = 14"

definition POINTS_PHASE_1 :: int where
  "POINTS_PHASE_1 = 1"

definition POINTS_PHASE_2 :: int where
  "POINTS_PHASE_2 = 5"

definition POINTS_PHASE_3 :: int where
  "POINTS_PHASE_3 = 10"

definition MAX_HIGHSCORES :: nat where
  "MAX_HIGHSCORES = 10"

datatype status = Welcome | Playing | Game_Over

text \<open>The question dictionary \<^verbatim>\<open>{'a': a, 'b': b, 'answer': answer}\<close>.\<close>

record question =
  qa :: int
  qb :: int
  answer :: int

record game_state =
  status :: status
  current_round :: int
  score :: int
  current_question :: "question option"
  start_time :: "real option"
  last_message :: string
  show_highscore_form :: bool

text \<open>
  A leaderboard entry \<^verbatim>\<open>{'name': .., 'score': .., 'date': ..}\<close>. The sort key of the source is
  \<^verbatim>\<open>x.get('score', 0)\<close>, so an entry read from the file may lack its score: the field is an
  option and \<open>score_key\<close> is the lambda of the source.
\<close>

record highscore_entry =
  entry_name :: string
  entry_score :: "int option"
  entry_date :: string

datatype py_error = TypeError

section \<open>Randomness\<close>

text \<open>
  Python's generator is global state that every draw advances. It is modelled as an
  infinite tape of raw naturals, passed in and returned. \<^verbatim>\<open>random.randint(lo, hi)\<close> yields an
  integer of the closed range, here \<open>lo\<close> plus the raw value reduced modulo the range's size;
  \<^verbatim>\<open>random.random()\<close> yields \<open>k / 2^53\<close> for a 53-bit \<open>k\<close>. Quantifying over the tape
  quantifies over every outcome of the draws.
\<close>

type_synonym rng = "nat \<Rightarrow> nat"

definition next_raw :: "rng \<Rightarrow> nat \<times> rng" where
  "next_raw g = (g 0, \<lambda>i. g (Suc i))"

definition random_randint :: "int \<Rightarrow> int \<Rightarrow> rng \<Rightarrow> int \<times> rng" where
  "random_randint lo hi g =
     (case next_raw g of (r, g') \<Rightarrow> (lo + int (r mod nat (hi - lo + 1)), g'))"

definition random_random :: "rng \<Rightarrow> real \<times> rng" where
  "random_random g =
     (case next_raw g of (r, g') \<Rightarrow> (real (r mod 2 ^ 53) / 2 ^ 53, g'))"

section \<open>Text of an integer\<close>

text \<open>What an f-string prints for an \<^verbatim>\<open>int\<close>: decimal digits, a minus sign when negative.\<close>

definition digit_char :: "nat \<Rightarrow> char" where
  "digit_char d = ''0123456789'' ! d"

fun str_nat :: "nat \<Rightarrow> string" where
  "str_nat n =
     (if n < 10 then [digit_char n]
      else str_nat (n div 10) @ [digit_char (n mod 10)])"

text \<open>The equation of \<open>str_nat\<close> is applied where it is named, not by default.\<close>

declare str_nat.simps [simp del]

definition str_int :: "int \<Rightarrow> string" where
  "str_int i = (if i < 0 then CHR ''-'' # str_nat (nat (- i)) else str_nat (nat i))"

text \<open>
  Reading decimal text back, to say what the text of an integer is: the value of a digit,
  of a row of digits, and of a row of digits with an optional minus sign.
\<close>

definition digit_val :: "char \<Rightarrow> nat" where
  "digit_val c = of_char c - 48"

definition nat_of_digits :: "string \<Rightarrow> nat" where
  "nat_of_digits cs = foldl (\<lambda>acc c. 10 * acc + digit_val c) 0 cs"

definition int_of_str :: "string \<Rightarrow> int" where
  "int_of_str cs =
     (case cs of
        [] \<Rightarrow> 0
      | c # rest \<Rightarrow> if c = CHR ''-'' then - int (nat_of_digits rest) else int (nat_of_digits cs))"

text \<open>
  The answer that a game-over message spells out: the text between the fixed opening
  and the fixed ending of \<^verbatim>\<open>f"Oh no! The correct answer was {correct_answer}. Game over."\<close>,
  read as an integer; nothing when the message is not of that form.
\<close>

definition revealed_answer :: "string \<Rightarrow> int option" where
  "revealed_answer msg =
     (let opening = ''Oh no! The correct answer was ''; ending = ''. Game over.'';
          n = length msg - length opening - length ending
      in if length opening + length ending \<le> length msg
            \<and> take (length opening) msg = opening
            \<and> drop (length opening + n) msg = ending
         then Some (int_of_str (take n (drop (length opening) msg)))
         else None)"

section \<open>Logic functions\<close>

definition initialize_game_state :: game_state where
  "initialize_game_state =
     \<lparr> status = Welcome, current_round = 0, score = 0, current_question = None,
       start_time = None, last_message = '''', show_highscore_form = False \<rparr>"

definition mk_question :: "int \<Rightarrow> int \<Rightarrow> question" where
  "mk_question x y = \<lparr> qa = x, qb = y, answer = x * y \<rparr>"

definition generate_question :: "int \<Rightarrow> rng \<Rightarrow> question \<times> rng" where
  "generate_question rnd g =
     (if rnd \<le> PHASE_1_END_ROUND then
        (case random_randint (fst PHASE_1_RANGE) (snd PHASE_1_RANGE) g of (x, g1) \<Rightarrow>
         case random_randint (fst PHASE_1_RANGE) (snd PHASE_1_RANGE) g1 of (y, g2) \<Rightarrow>
           (mk_question x y, g2))
      else if rnd \<le> PHASE_2_END_ROUND then
        (case random_randint (fst PHASE_1_RANGE) (snd PHASE_1_RANGE) g of (x, g1) \<Rightarrow>
         case random_randint (fst PHASE_2_RANGE) (snd PHASE_2_RANGE) g1 of (y, g2) \<Rightarrow>
         case random_random g2 of (u, g3) \<Rightarrow>
           if u > 0.5 then (mk_question y x, g3) else (mk_question x y, g3))
      else
        (case random_randint (fst PHASE_2_RANGE) (snd PHASE_2_RANGE) g of (x, g1) \<Rightarrow>
         case random_randint (fst PHASE_2_RANGE) (snd PHASE_2_RANGE) g1 of (y, g2) \<Rightarrow>
           (mk_question x y, g2)))"

definition get_points_for_round :: "int \<Rightarrow> int" where
  "get_points_for_round rnd =
     (if rnd \<le> PHASE_1_END_ROUND then POINTS_PHASE_1
      else if rnd \<le> PHASE_2_END_ROUND then POINTS_PHASE_2
      else POINTS_PHASE_3)"

definition get_phase_for_round :: "int \<Rightarrow> int" where
  "get_phase_for_round rnd =
     (if rnd \<le> PHASE_1_END_ROUND then 1
      else if rnd \<le> PHASE_2_END_ROUND then 2
      else 3)"

text \<open>
  The tail every ending shares: \<^verbatim>\<open>if updated_state['score'] > 0:
  updated_state['show_highscore_form'] = True\<close>. There is no \<^verbatim>\<open>else\<close>.
\<close>

definition raise_form :: "game_state \<Rightarrow> game_state" where
  "raise_form s = (if score s > 0 then s\<lparr>show_highscore_form := True\<rparr> else s)"

text \<open>
  \<open>check_answer\<close> on the value of the dictionary. The test
  \<^verbatim>\<open>'current_question' not in updated_state or updated_state['current_question'] is None\<close>
  is the \<open>None\<close> case: a record has no missing key.
\<close>

definition check_answer :: "game_state \<Rightarrow> int \<Rightarrow> rng \<Rightarrow> game_state \<times> rng" where
  "check_answer gs user_input g =
     (case current_question gs of
        None \<Rightarrow> (gs, g)
      | Some q \<Rightarrow>
          (let correct_answer = answer q in
           if user_input = correct_answer then
             (let points_to_add = get_points_for_round (current_round gs);
                  s1 = gs\<lparr>score := score gs + points_to_add\<rparr>;
                  s2 = s1\<lparr>current_round := current_round s1 + 1\<rparr>;
                  s3 = s2\<lparr>last_message :=
                          ''Great job! That was correct. +'' @ str_int points_to_add @ '' points.''\<rparr>
              in if current_round s3 > TOTAL_ROUNDS then
                   (let s4 = s3\<lparr>status := Game_Over\<rparr>;
                        s5 = s4\<lparr>last_message :=
                                ''Wow! You finished all rounds! You are a math star!''\<rparr>;
                        s6 = s5\<lparr>current_question := None\<rparr>
                    in (raise_form s6, g))
                 else
                   (case generate_question (current_round s3) g of
                      (q', g') \<Rightarrow> (s3\<lparr>current_question := Some q'\<rparr>, g')))
           else
             (let s1 = gs\<lparr>status := Game_Over\<rparr>;
                  s2 = s1\<lparr>last_message :=
                          ''Oh no! The correct answer was '' @ str_int correct_answer
                            @ ''. Game over.''\<rparr>;
                  s3 = s2\<lparr>current_question := None\<rparr>
              in (raise_form s3, g))))"

text \<open>
  \<open>check_timer\<close>, with the reading of \<^verbatim>\<open>time.time()\<close> as the argument \<open>now\<close>. Clock
  readings are doubles, and every finite double is a real number; but the \<^verbatim>\<open>-\<close> of line 165
  is the subtraction of doubles, which rounds. It is the argument \<open>float_sub\<close>: whatever
  is proved of \<open>check_timer\<close> for every \<open>float_sub\<close> holds of the code, and \<open>elapsed_time\<close>
  is the elapsed time as the code computes it. The comparison with the limit is exact.
  With the status \<open>Playing\<close> and no start time the subtraction raises \<^verbatim>\<open>TypeError\<close>.
\<close>

definition check_timer ::
    "(real \<Rightarrow> real \<Rightarrow> real) \<Rightarrow> game_state \<Rightarrow> real \<Rightarrow> py_error + game_state" where
  "check_timer float_sub gs now =
     (if status gs \<noteq> Playing then Inr gs
      else
        (case start_time gs of
           None \<Rightarrow> Inl TypeError
         | Some t0 \<Rightarrow>
             (let elapsed_time = float_sub now t0 in
              if elapsed_time > SESSION_TIME_LIMIT_SECONDS then
                (let s1 = gs\<lparr>status := Game_Over\<rparr>;
                     s2 = s1\<lparr>last_message := ''Time is up! Game over.''\<rparr>;
                     s3 = s2\<lparr>current_question := None\<rparr>
                 in Inr (raise_form s3))
              else Inr gs)))"

section \<open>Callbacks\<close>

text \<open>
  The callbacks store their state in \<^verbatim>\<open>st.session_state\<close>; the models return it.
\<close>

definition start_game_callback :: "real \<Rightarrow> rng \<Rightarrow> game_state \<times> rng" where
  "start_game_callback now g =
     (let s0 = initialize_game_state;
          s1 = s0\<lparr>status := Playing\<rparr>;
          s2 = s1\<lparr>start_time := Some now\<rparr>;
          s3 = s2\<lparr>current_round := 1\<rparr>
      in case generate_question 1 g of
           (q, g') \<Rightarrow>
             (s3\<lparr>current_question := Some q,
                 last_message := ''Here is your first question. Good luck!''\<rparr>, g'))"

definition restart_game_callback :: game_state where
  "restart_game_callback = initialize_game_state"

section \<open>\<open>check_answer\<close> on a store of dictionaries\<close>

text \<open>
  Whether \<open>check_answer\<close> changes the dictionary it is given is a question about objects,
  not values. Here a store holds the session dictionaries, a reference is an index into
  it, \<^verbatim>\<open>game_state.copy()\<close> allocates a new dictionary with the same items, and every
  subscript assignment of the source is a write through the reference \<^verbatim>\<open>updated_state\<close>. The
  nested question dictionary is shared by the shallow copy, but no statement of the
  program writes into a question: a question is kept by value.
\<close>

type_synonym store = "game_state list"

type_synonym ref = nat

definition dict_copy :: "store \<Rightarrow> ref \<Rightarrow> store \<times> ref" where
  "dict_copy h p = (h @ [h ! p], length h)"

definition assign :: "store \<Rightarrow> ref \<Rightarrow> (game_state \<Rightarrow> game_state) \<Rightarrow> store" where
  "assign h p f = h[p := f (h ! p)]"

definition check_answer_st :: "store \<Rightarrow> ref \<Rightarrow> int \<Rightarrow> rng \<Rightarrow> store \<times> ref \<times> rng" where
  "check_answer_st h game_state user_input g =
     (case dict_copy h game_state of (h0, updated_state) \<Rightarrow>
      (case current_question (h0 ! updated_state) of
         None \<Rightarrow> (h0, updated_state, g)
       | Some q \<Rightarrow>
           (let correct_answer = answer q in
            if user_input = correct_answer then
              (let points_to_add = get_points_for_round (current_round (h0 ! updated_state));
                   h1 = assign h0 updated_state (\<lambda>s. s\<lparr>score := score s + points_to_add\<rparr>);
                   h2 = assign h1 updated_state (\<lambda>s. s\<lparr>current_round := current_round s + 1\<rparr>);
                   h3 = assign h2 updated_state (\<lambda>s. s\<lparr>last_message :=
                          ''Great job! That was correct. +'' @ str_int points_to_add @ '' points.''\<rparr>)
               in if current_round (h3 ! updated_state) > TOTAL_ROUNDS then
                    (let h4 = assign h3 updated_state (\<lambda>s. s\<lparr>status := Game_Over\<rparr>);
                         h5 = assign h4 updated_state (\<lambda>s. s\<lparr>last_message :=
                                ''Wow! You finished all rounds! You are a math star!''\<rparr>);
                         h6 = assign h5 updated_state (\<lambda>s. s\<lparr>current_question := None\<rparr>)
                     in (assign h6 updated_state raise_form, updated_state, g))
                  else
                    (case generate_question (current_round (h3 ! updated_state)) g of
                       (q', g') \<Rightarrow>
                         (assign h3 updated_state (\<lambda>s. s\<lparr>current_question := Some q'\<rparr>),
                          updated_state, g')))
            else
              (let h1 = assign h0 updated_state (\<lambda>s. s\<lparr>status := Game_Over\<rparr>);
                   h2 = assign h1 updated_state (\<lambda>s. s\<lparr>last_message :=
                          ''Oh no! The correct answer was '' @ str_int correct_answer
                            @ ''. Game over.''\<rparr>);
                   h3 = assign h2 updated_state (\<lambda>s. s\<lparr>current_question := None\<rparr>)
               in (assign h3 updated_state raise_form, updated_state, g)))))"

section \<open>The leaderboard\<close>

definition score_key :: "highscore_entry \<Rightarrow> int" where
  "score_key x = (case entry_score x of None \<Rightarrow> 0 | Some v \<Rightarrow> v)"

text \<open>
  \<^verbatim>\<open>list.sort(key=k, reverse=True)\<close> is the library's stable sort, largest key first, equal
  keys in their original order. An insertion sort with that result stands for it: an
  element goes in front of the first element whose key is not larger than its own, and the
  list is built from its right end.
\<close>

fun insort_desc :: "('a \<Rightarrow> int) \<Rightarrow> 'a \<Rightarrow> 'a list \<Rightarrow> 'a list" where
  "insort_desc k x [] = [x]"
| "insort_desc k x (y # ys) = (if k x < k y then y # insort_desc k x ys else x # y # ys)"

fun list_sort_reverse :: "('a \<Rightarrow> int) \<Rightarrow> 'a list \<Rightarrow> 'a list" where
  "list_sort_reverse k [] = []"
| "list_sort_reverse k (x # xs) = insort_desc k x (list_sort_reverse k xs)"

text \<open>
  \<open>add_highscore\<close>; \<open>entry_time\<close> is the text that \<^verbatim>\<open>time.strftime\<close> makes of the clock.
\<close>

definition add_highscore ::
    "string \<Rightarrow> int \<Rightarrow> highscore_entry list \<Rightarrow> string \<Rightarrow> highscore_entry list" where
  "add_highscore name sc current_scores entry_time =
     (let new_entry = \<lparr> entry_name = name, entry_score = Some sc, entry_date = entry_time \<rparr>;
          updated_scores = current_scores @ [new_entry];
          sorted_scores = list_sort_reverse score_key updated_scores
      in take MAX_HIGHSCORES sorted_scores)"

section \<open>Sessions\<close>

text \<open>The invariant of the data model: a question is present exactly while playing.\<close>

definition question_iff_playing :: "game_state \<Rightarrow> bool" where
  "question_iff_playing gs = ((current_question gs \<noteq> None) = (status gs = Playing))"

text \<open>
  The states a session can be in: the initial one, and whatever the four operations make
  of a state already reached, for any clock reading, any input, any draws and whatever
  the subtraction of two clock readings yields.
\<close>

inductive reachable :: "game_state \<Rightarrow> bool" where
  r_init: "reachable initialize_game_state"
| r_start: "reachable (fst (start_game_callback now g))"
| r_answer: "reachable gs \<Longrightarrow> reachable (fst (check_answer gs user_input g))"
| r_timer: "reachable gs \<Longrightarrow> check_timer float_sub gs now = Inr gs' \<Longrightarrow> reachable gs'"
| r_restart: "reachable restart_game_callback"

text \<open>One round of a player who types the answer of the question on display.\<close>

definition answer_correctly :: "game_state \<times> rng \<Rightarrow> game_state \<times> rng" where
  "answer_correctly sg =
     (case current_question (fst sg) of
        None \<Rightarrow> sg
      | Some q \<Rightarrow> check_answer (fst sg) (answer q) (snd sg))"

text \<open>Concrete inputs for the examples: two tapes, a playing state, a full leaderboard.\<close>

definition zero_tape :: rng where
  "zero_tape = (\<lambda>i. 0)"

definition high_tape :: rng where
  "high_tape = (\<lambda>i. 2 ^ 53 - 1)"

definition sample_state :: "int \<Rightarrow> int \<Rightarrow> bool \<Rightarrow> game_state" where
  "sample_state rnd pts form =
     \<lparr> status = Playing, current_round = rnd, score = pts,
       current_question = Some (mk_question 6 7), start_time = Some 1000,
       last_message = [], show_highscore_form = form \<rparr>"

definition sample_entry :: "string \<Rightarrow> int \<Rightarrow> highscore_entry" where
  "sample_entry name sc =
     \<lparr> entry_name = name, entry_score = Some sc, entry_date = ''2024-01-01 12:00'' \<rparr>"

definition full_board :: "highscore_entry list" where
  "full_board = map (\<lambda>n. sample_entry n 5)
     [''Ada'', ''Bob'', ''Cy'', ''Dee'', ''Eve'', ''Fay'', ''Gus'', ''Hal'', ''Ida'', ''Jo'']"

section \<open>Scoring bands\<close>

lemma phase_values: "get_phase_for_round r \<in> {1, 2, 3}"
  by (simp add: get_phase_for_round_def)

lemma points_values: "get_points_for_round r \<in> {1, 5, 10}"
  by (simp add: get_points_for_round_def POINTS_PHASE_1_def POINTS_PHASE_2_def
      POINTS_PHASE_3_def)

text \<open>
  Claim C2. For a round \<open>r\<close> of 1..20 the phase and the points are those of the band table:
  rounds 1-7 give phase 1 and 1 point, rounds 8-14 phase 2 and 5 points, rounds 15-20
  phase 3 and 10 points; and the phase never decreases from a round \<open>r\<close> to a later round
  \<open>r'\<close> of 1..20.
\<close>

theorem band_table:
  assumes "1 \<le> r" and "r \<le> r'" and "r' \<le> 20"
  shows "(r \<le> 7 \<longrightarrow> get_phase_for_round r = 1 \<and> get_points_for_round r = 1)
       \<and> (8 \<le> r \<and> r \<le> 14 \<longrightarrow> get_phase_for_round r = 2 \<and> get_points_for_round r = 5)
       \<and> (15 \<le> r \<longrightarrow> get_phase_for_round r = 3 \<and> get_points_for_round r = 10)
       \<and> get_phase_for_round r \<le> get_phase_for_round r'"
  using assms
  by (simp add: get_phase_for_round_def get_points_for_round_def PHASE_1_END_ROUND_def
      PHASE_2_END_ROUND_def POINTS_PHASE_1_def POINTS_PHASE_2_def POINTS_PHASE_3_def)

theorem band_table_witness:
  "((1::int) \<le> 3 \<and> (3::int) \<le> 10 \<and> (10::int) \<le> 20
      \<and> get_phase_for_round 3 = 1 \<and> get_points_for_round 3 = 1
      \<and> get_phase_for_round 3 \<le> get_phase_for_round 10)
   \<and> ((1::int) \<le> 10 \<and> (10::int) \<le> 17 \<and> (17::int) \<le> 20
      \<and> get_phase_for_round 10 = 2 \<and> get_points_for_round 10 = 5
      \<and> get_phase_for_round 10 \<le> get_phase_for_round 17)
   \<and> ((1::int) \<le> 17 \<and> (17::int) \<le> 20 \<and> (20::int) \<le> 20
      \<and> get_phase_for_round 17 = 3 \<and> get_points_for_round 17 = 10
      \<and> get_phase_for_round 17 \<le> get_phase_for_round 20)"
  using band_table [of 3 10] band_table [of 10 17] band_table [of 17 20]
  by simp

section \<open>What each branch returns\<close>

lemma raise_form_fields:
  "status (raise_form s) = status s"
  "current_round (raise_form s) = current_round s"
  "score (raise_form s) = score s"
  "current_question (raise_form s) = current_question s"
  "start_time (raise_form s) = start_time s"
  "last_message (raise_form s) = last_message s"
  "show_highscore_form (raise_form s) = (show_highscore_form s \<or> 0 < score s)"
  by (simp_all add: raise_form_def)

lemma check_answer_absent:
  "current_question gs = None \<Longrightarrow> check_answer gs v g = (gs, g)"
  by (simp add: check_answer_def)

lemma check_answer_wrong:
  assumes "current_question gs = Some q" and "v \<noteq> answer q"
  shows "check_answer gs v g =
     (raise_form (gs\<lparr>status := Game_Over,
         last_message := ''Oh no! The correct answer was '' @ str_int (answer q) @ ''. Game over.'',
         current_question := None\<rparr>), g)"
  using assms by (simp add: check_answer_def Let_def)

lemma check_answer_last:
  assumes "current_question gs = Some q" and "v = answer q"
    and "TOTAL_ROUNDS < current_round gs + 1"
  shows "check_answer gs v g =
     (raise_form (gs\<lparr>score := score gs + get_points_for_round (current_round gs),
         current_round := current_round gs + 1,
         status := Game_Over,
         last_message := ''Wow! You finished all rounds! You are a math star!'',
         current_question := None\<rparr>), g)"
  using assms by (simp add: check_answer_def Let_def)

lemma check_answer_next:
  assumes "current_question gs = Some q" and "v = answer q"
    and "current_round gs + 1 \<le> TOTAL_ROUNDS"
  shows "check_answer gs v g =
     (gs\<lparr>score := score gs + get_points_for_round (current_round gs),
         current_round := current_round gs + 1,
         last_message := ''Great job! That was correct. +''
            @ str_int (get_points_for_round (current_round gs)) @ '' points.'',
         current_question := Some (fst (generate_question (current_round gs + 1) g))\<rparr>,
      snd (generate_question (current_round gs + 1) g))"
  using assms by (simp add: check_answer_def Let_def split: prod.splits)



lemma check_timer_expired:
  assumes "status gs = Playing" and "start_time gs = Some t0"
    and "SESSION_TIME_LIMIT_SECONDS < float_sub now t0"
  shows "check_timer float_sub gs now =
     Inr (raise_form (gs\<lparr>status := Game_Over, last_message := ''Time is up! Game over.'',
        current_question := None\<rparr>))"
  using assms by (simp add: check_timer_def Let_def)

lemma check_answer_start_time:
  "start_time (fst (check_answer gs v g)) = start_time gs"
  by (simp add: check_answer_def Let_def raise_form_fields split: option.splits prod.splits)

section \<open>A perfect session\<close>

lemma start_game_fields:
  "status (fst (start_game_callback now g)) = Playing"
  "current_round (fst (start_game_callback now g)) = 1"
  "score (fst (start_game_callback now g)) = 0"
  "current_question (fst (start_game_callback now g)) = Some (fst (generate_question 1 g))"
  "start_time (fst (start_game_callback now g)) = Some now"
  "\<not> show_highscore_form (fst (start_game_callback now g))"
  by (simp_all add: start_game_callback_def initialize_game_state_def Let_def split: prod.splits)

lemma answer_correctly_next:
  assumes "current_question (fst sg) \<noteq> None" and "current_round (fst sg) + 1 \<le> TOTAL_ROUNDS"
  shows "status (fst (answer_correctly sg)) = status (fst sg)
       \<and> current_round (fst (answer_correctly sg)) = current_round (fst sg) + 1
       \<and> score (fst (answer_correctly sg))
            = score (fst sg) + get_points_for_round (current_round (fst sg))
       \<and> current_question (fst (answer_correctly sg)) \<noteq> None
       \<and> show_highscore_form (fst (answer_correctly sg)) = show_highscore_form (fst sg)"
proof -
  from assms(1) obtain q where q: "current_question (fst sg) = Some q" by blast
  then have "answer_correctly sg = check_answer (fst sg) (answer q) (snd sg)"
    by (simp add: answer_correctly_def)
  with q assms(2) show ?thesis
    by (simp add: check_answer_next)
qed

lemma answer_correctly_last:
  assumes "current_question (fst sg) \<noteq> None" and "TOTAL_ROUNDS < current_round (fst sg) + 1"
  shows "status (fst (answer_correctly sg)) = Game_Over
       \<and> score (fst (answer_correctly sg))
            = score (fst sg) + get_points_for_round (current_round (fst sg))
       \<and> current_question (fst (answer_correctly sg)) = None
       \<and> show_highscore_form (fst (answer_correctly sg))
            = (show_highscore_form (fst sg)
               \<or> 0 < score (fst sg) + get_points_for_round (current_round (fst sg)))"
proof -
  from assms(1) obtain q where q: "current_question (fst sg) = Some q" by blast
  then have "answer_correctly sg = check_answer (fst sg) (answer q) (snd sg)"
    by (simp add: answer_correctly_def)
  with q assms(2) show ?thesis
    by (simp add: check_answer_last raise_form_fields)
qed

text \<open>
  After \<open>k\<close> correct answers, \<open>k \<le> 19\<close>, the session is still playing, in round \<open>k + 1\<close>,
  with the points of rounds \<open>1..k\<close> banked.
\<close>

lemma correct_run:
  "k \<le> 19 \<Longrightarrow>
     status (fst ((answer_correctly ^^ k) (start_game_callback now g))) = Playing
   \<and> current_round (fst ((answer_correctly ^^ k) (start_game_callback now g))) = 1 + int k
   \<and> score (fst ((answer_correctly ^^ k) (start_game_callback now g)))
        = (if k \<le> 7 then int k else if k \<le> 14 then 5 * int k - 28 else 10 * int k - 98)
   \<and> current_question (fst ((answer_correctly ^^ k) (start_game_callback now g))) \<noteq> None
   \<and> \<not> show_highscore_form (fst ((answer_correctly ^^ k) (start_game_callback now g)))"
proof (induction k)
  case 0
  show ?case by (simp add: start_game_fields)
next
  case (Suc k)
  let ?sg = "(answer_correctly ^^ k) (start_game_callback now g)"
  from Suc have ih:
    "status (fst ?sg) = Playing" "current_round (fst ?sg) = 1 + int k"
    "score (fst ?sg) = (if k \<le> 7 then int k else if k \<le> 14 then 5 * int k - 28 else 10 * int k - 98)"
    "current_question (fst ?sg) \<noteq> None" "\<not> show_highscore_form (fst ?sg)"
    by simp_all
  from Suc.prems ih(2) have "current_round (fst ?sg) + 1 \<le> TOTAL_ROUNDS"
    by (simp add: TOTAL_ROUNDS_def)
  from answer_correctly_next [OF ih(4) this] ih Suc.prems show ?case
    by (simp add: get_points_for_round_def PHASE_1_END_ROUND_def PHASE_2_END_ROUND_def
        POINTS_PHASE_1_def POINTS_PHASE_2_def POINTS_PHASE_3_def)
qed

text \<open>Such a run stays among the states a session reaches, and keeps its start time.\<close>

lemma reachable_answer_correctly:
  "reachable (fst sg) \<Longrightarrow> reachable (fst (answer_correctly sg))"
  by (simp add: answer_correctly_def r_answer split: option.splits)

lemma reachable_correct_run:
  "reachable (fst ((answer_correctly ^^ k) (start_game_callback now g)))"
  by (induction k) (simp_all add: r_start reachable_answer_correctly)

lemma start_time_answer_correctly:
  "start_time (fst (answer_correctly sg)) = start_time (fst sg)"
  by (simp add: answer_correctly_def check_answer_start_time split: option.splits)

lemma start_time_correct_run:
  "start_time (fst ((answer_correctly ^^ k) (start_game_callback now g))) = Some now"
  by (induction k) (simp_all add: start_game_fields start_time_answer_correctly)

text \<open>
  Claim C3. Start a session and give the answer of the question on display twenty times,
  whatever the clock and the draws: after nineteen answers the session is playing round
  20, and the twentieth leaves score 102, status \<open>Game_Over\<close>, no question, and the
  highscore form flag up.
\<close>

theorem twenty_correct_answers:
  "status (fst ((answer_correctly ^^ 19) (start_game_callback now g))) = Playing
   \<and> current_round (fst ((answer_correctly ^^ 19) (start_game_callback now g))) = 20
   \<and> score (fst ((answer_correctly ^^ 20) (start_game_callback now g))) = 102
   \<and> status (fst ((answer_correctly ^^ 20) (start_game_callback now g))) = Game_Over
   \<and> current_question (fst ((answer_correctly ^^ 20) (start_game_callback now g))) = None
   \<and> show_highscore_form (fst ((answer_correctly ^^ 20) (start_game_callback now g)))"
proof -
  let ?sg = "(answer_correctly ^^ 19) (start_game_callback now g)"
  have run: "status (fst ?sg) = Playing" "current_round (fst ?sg) = 20" "score (fst ?sg) = 92"
    "current_question (fst ?sg) \<noteq> None"
    using correct_run [of 19 now g] by simp_all
  have twenty: "(20::nat) = Suc 19" by simp
  have unroll: "(answer_correctly ^^ 20) (start_game_callback now g) = answer_correctly ?sg"
    by (simp only: twenty funpow.simps o_apply)
  from run(2) have "TOTAL_ROUNDS < current_round (fst ?sg) + 1"
    by (simp add: TOTAL_ROUNDS_def)
  from answer_correctly_last [OF run(4) this] run show ?thesis
    by (simp add: unroll get_points_for_round_def PHASE_1_END_ROUND_def PHASE_2_END_ROUND_def
        POINTS_PHASE_3_def)
qed

section \<open>The highscore form at the end of a session\<close>

text \<open>
  In every state a session reaches, the form flag is down unless the game is over: the
  playing states that the operations are handed have the flag down.
\<close>

lemma reachable_form_down:
  "reachable gs \<Longrightarrow> status gs \<noteq> Game_Over \<Longrightarrow> \<not> show_highscore_form gs"
proof (induction rule: reachable.induct)
  case r_init
  then show ?case by (simp add: initialize_game_state_def)
next
  case (r_start now g)
  then show ?case by (simp add: start_game_fields)
next
  case (r_answer gs user_input g)
  show ?case
  proof (cases "current_question gs")
    case None
    with r_answer show ?thesis by (simp add: check_answer_absent)
  next
    case (Some q)
    show ?thesis
    proof (cases "user_input = answer q")
      case False
      with Some r_answer.prems show ?thesis
        by (simp add: check_answer_wrong raise_form_fields)
    next
      case True
      show ?thesis
      proof (cases "TOTAL_ROUNDS < current_round gs + 1")
        case True
        with Some \<open>user_input = answer q\<close> r_answer.prems show ?thesis
          by (simp add: check_answer_last raise_form_fields)
      next
        case False
        then have "current_round gs + 1 \<le> TOTAL_ROUNDS" by simp
        with Some \<open>user_input = answer q\<close> r_answer show ?thesis
          by (simp add: check_answer_next)
      qed
    qed
  qed
next
  case (r_timer gs float_sub now gs')
  then show ?case
    by (auto simp: check_timer_def Let_def raise_form_fields split: if_splits option.splits)
next
  case r_restart
  then show ?case by (simp add: restart_game_callback_def initialize_game_state_def)
qed

text \<open>
  Claim C1. A playing session ends by a wrong answer, by the correct answer of round 20,
  or by the timer (when the elapsed time that \<open>check_timer\<close> computes exceeds the limit).
  In each case the resulting state is \<open>Game_Over\<close>, and its \<open>show_highscore_form\<close> is the
  flag as it was or \<open>0 < score\<close> of the resulting state: the code raises the flag and never
  lowers it. In every playing state that a session reaches the flag is down, and there the
  resulting flag equals \<open>0 < score\<close>.
\<close>

theorem ending_raises_form:
  assumes "status gs = Playing"
  shows "(current_question gs = Some q \<and> v \<noteq> answer q \<longrightarrow>
            status (fst (check_answer gs v g)) = Game_Over
          \<and> show_highscore_form (fst (check_answer gs v g))
              = (show_highscore_form gs \<or> 0 < score (fst (check_answer gs v g)))
          \<and> (reachable gs \<longrightarrow>
               show_highscore_form (fst (check_answer gs v g))
                 = (0 < score (fst (check_answer gs v g)))))
       \<and> (current_question gs = Some q \<and> v = answer q \<and> TOTAL_ROUNDS < current_round gs + 1 \<longrightarrow>
            status (fst (check_answer gs v g)) = Game_Over
          \<and> show_highscore_form (fst (check_answer gs v g))
              = (show_highscore_form gs \<or> 0 < score (fst (check_answer gs v g)))
          \<and> (reachable gs \<longrightarrow>
               show_highscore_form (fst (check_answer gs v g))
                 = (0 < score (fst (check_answer gs v g)))))
       \<and> (start_time gs = Some t0 \<and> SESSION_TIME_LIMIT_SECONDS < float_sub now t0 \<longrightarrow>
            (\<exists>gs'. check_timer float_sub gs now = Inr gs' \<and> status gs' = Game_Over
               \<and> show_highscore_form gs' = (show_highscore_form gs \<or> 0 < score gs')
               \<and> (reachable gs \<longrightarrow> show_highscore_form gs' = (0 < score gs'))))"
proof -
  have down: "\<not> show_highscore_form gs" if "reachable gs"
    using that assms reachable_form_down by simp
  have wrong: "status (fst (check_answer gs v g)) = Game_Over
          \<and> show_highscore_form (fst (check_answer gs v g))
              = (show_highscore_form gs \<or> 0 < score (fst (check_answer gs v g)))"
    if "current_question gs = Some q \<and> v \<noteq> answer q"
    using that by (simp add: check_answer_wrong raise_form_fields)
  have last: "status (fst (check_answer gs v g)) = Game_Over
          \<and> show_highscore_form (fst (check_answer gs v g))
              = (show_highscore_form gs \<or> 0 < score (fst (check_answer gs v g)))"
    if "current_question gs = Some q \<and> v = answer q \<and> TOTAL_ROUNDS < current_round gs + 1"
    using that by (simp add: check_answer_last raise_form_fields)
  have timer: "\<exists>gs'. check_timer float_sub gs now = Inr gs' \<and> status gs' = Game_Over
               \<and> show_highscore_form gs' = (show_highscore_form gs \<or> 0 < score gs')"
    if "start_time gs = Some t0 \<and> SESSION_TIME_LIMIT_SECONDS < float_sub now t0"
    using that assms by (simp add: check_timer_expired raise_form_fields)
  from down wrong last timer show ?thesis by blast
qed

text \<open>
  The three endings on states of a session started at clock reading 1000: a wrong first
  answer, the twentieth correct answer, and a timeout after nineteen correct answers.
\<close>

theorem ending_raises_form_witness:
  "status (fst (start_game_callback 1000 zero_tape)) = Playing
   \<and> reachable (fst (start_game_callback 1000 zero_tape))
   \<and> current_question (fst (start_game_callback 1000 zero_tape)) = Some (mk_question 1 1)
   \<and> 5 \<noteq> answer (mk_question 1 1)
   \<and> status (fst (check_answer (fst (start_game_callback 1000 zero_tape)) 5 zero_tape)) = Game_Over
   \<and> show_highscore_form (fst (check_answer (fst (start_game_callback 1000 zero_tape)) 5 zero_tape))
        = (0 < score (fst (check_answer (fst (start_game_callback 1000 zero_tape)) 5 zero_tape)))
   \<and> score (fst (check_answer (fst (start_game_callback 1000 zero_tape)) 5 zero_tape)) = 0
   \<and> status (fst ((answer_correctly ^^ 19) (start_game_callback 1000 zero_tape))) = Playing
   \<and> reachable (fst ((answer_correctly ^^ 19) (start_game_callback 1000 zero_tape)))
   \<and> current_question (fst ((answer_correctly ^^ 19) (start_game_callback 1000 zero_tape))) \<noteq> None
   \<and> TOTAL_ROUNDS
        < current_round (fst ((answer_correctly ^^ 19) (start_game_callback 1000 zero_tape))) + 1
   \<and> show_highscore_form (fst (answer_correctly
          ((answer_correctly ^^ 19) (start_game_callback 1000 zero_tape))))
   \<and> score (fst (answer_correctly
          ((answer_correctly ^^ 19) (start_game_callback 1000 zero_tape)))) = 102
   \<and> start_time (fst ((answer_correctly ^^ 19) (start_game_callback 1000 zero_tape))) = Some 1000
   \<and> SESSION_TIME_LIMIT_SECONDS < 1301 - 1000
   \<and> (\<exists>gs'. check_timer (\<lambda>x y. x - y)
                (fst ((answer_correctly ^^ 19) (start_game_callback 1000 zero_tape))) 1301 = Inr gs'
          \<and> status gs' = Game_Over \<and> show_highscore_form gs' \<and> score gs' = 92)"
proof -
  let ?s0 = "fst (start_game_callback 1000 zero_tape)"
  let ?sg = "(answer_correctly ^^ 19) (start_game_callback 1000 zero_tape)"
  have q0: "current_question ?s0 = Some (mk_question 1 1)"
    by (simp add: start_game_fields generate_question_def random_randint_def next_raw_def
        zero_tape_def PHASE_1_END_ROUND_def PHASE_1_RANGE_def)
  have p0: "status ?s0 = Playing" and sc0: "score ?s0 = 0"
    by (simp_all add: start_game_fields)
  have r0: "reachable ?s0" by (rule r_start)
  have w0: "5 \<noteq> answer (mk_question 1 1)" by (simp add: mk_question_def)
  have e0: "score (fst (check_answer ?s0 5 zero_tape)) = 0"
    using q0 w0 sc0 by (simp add: check_answer_wrong raise_form_fields)
  from ending_raises_form [OF p0, of "mk_question 1 1" 5 zero_tape 1000 "\<lambda>x y. x - y" 1301]
    q0 w0 r0
  have a: "status (fst (check_answer ?s0 5 zero_tape)) = Game_Over
      \<and> show_highscore_form (fst (check_answer ?s0 5 zero_tape))
           = (0 < score (fst (check_answer ?s0 5 zero_tape)))"
    by blast
  have run: "status (fst ?sg) = Playing" "current_round (fst ?sg) = 20" "score (fst ?sg) = 92"
    "current_question (fst ?sg) \<noteq> None"
    using correct_run [of 19 1000 zero_tape] by simp_all
  have r19: "reachable (fst ?sg)" by (rule reachable_correct_run)
  have t19: "start_time (fst ?sg) = Some 1000" by (rule start_time_correct_run)
  from run(4) obtain q where q: "current_question (fst ?sg) = Some q" by blast
  then have step: "answer_correctly ?sg = check_answer (fst ?sg) (answer q) (snd ?sg)"
    by (simp add: answer_correctly_def)
  have over: "TOTAL_ROUNDS < current_round (fst ?sg) + 1"
    using run(2) by (simp add: TOTAL_ROUNDS_def)
  have e19: "score (fst (answer_correctly ?sg)) = 102"
    using answer_correctly_last [OF run(4) over] run(2,3)
    by (simp add: get_points_for_round_def PHASE_1_END_ROUND_def PHASE_2_END_ROUND_def
        POINTS_PHASE_3_def)
  from ending_raises_form [OF run(1), of q "answer q" "snd ?sg" 1000 "\<lambda>x y. x - y" 1301]
    q over r19
  have b: "show_highscore_form (fst (answer_correctly ?sg))
      = (0 < score (fst (answer_correctly ?sg)))"
    unfolding step by blast
  have late: "SESSION_TIME_LIMIT_SECONDS < (1301::real) - 1000"
    by (simp add: SESSION_TIME_LIMIT_SECONDS_def)
  from ending_raises_form [OF run(1), of q "answer q" "snd ?sg" 1000 "\<lambda>x y. x - y" 1301]
    t19 late r19
  obtain gs' where c: "check_timer (\<lambda>x y. x - y) (fst ?sg) 1301 = Inr gs'"
    "status gs' = Game_Over" "show_highscore_form gs' = (0 < score gs')"
    by blast
  have "score gs' = 92"
    using c(1) run(1,3) t19 late by (auto simp: check_timer_expired raise_form_fields)
  with c have d: "\<exists>gs'. check_timer (\<lambda>x y. x - y) (fst ?sg) 1301 = Inr gs'
      \<and> status gs' = Game_Over \<and> show_highscore_form gs' \<and> score gs' = 92"
    by auto
  from p0 r0 q0 w0 a e0 run r19 over b e19 t19 late d show ?thesis by simp
qed

section \<open>The text of an integer\<close>

text \<open>
  \<open>str_int\<close> writes the decimal numeral of its argument: digits only, no leading zero,
  a minus sign exactly for a negative number, and the number is read back from it. So
  different numbers have different texts.
\<close>

lemma digit_val_digit_char: "d < 10 \<Longrightarrow> digit_val (digit_char d) = d"
proof -
  assume "d < 10"
  then consider "d = 0" | "d = 1" | "d = 2" | "d = 3" | "d = 4"
    | "d = 5" | "d = 6" | "d = 7" | "d = 8" | "d = 9"
    by atomize_elim arith
  then show ?thesis
    by cases (simp_all add: digit_val_def digit_char_def)
qed

lemma digit_char_in_digits: "d < 10 \<Longrightarrow> digit_char d \<in> set ''0123456789''"
  unfolding digit_char_def by (rule nth_mem) simp

lemma nat_of_digits_snoc:
  "nat_of_digits (cs @ [c]) = 10 * nat_of_digits cs + digit_val c"
  by (simp add: nat_of_digits_def)

lemma nat_of_digits_str_nat: "nat_of_digits (str_nat n) = n"
proof (induction n rule: str_nat.induct)
  case (1 n)
  show ?case
  proof (cases "n < 10")
    case True
    then show ?thesis
      by (simp add: str_nat.simps nat_of_digits_def digit_val_digit_char)
  next
    case False
    then have "nat_of_digits (str_nat (n div 10)) = n div 10" by (rule "1.IH")
    moreover have "str_nat n = str_nat (n div 10) @ [digit_char (n mod 10)]"
      using False by (subst str_nat.simps) simp
    ultimately show ?thesis
      by (simp add: nat_of_digits_snoc digit_val_digit_char)
  qed
qed

lemma str_nat_digits: "str_nat n \<noteq> [] \<and> set (str_nat n) \<subseteq> set ''0123456789''"
proof (induction n rule: str_nat.induct)
  case (1 n)
  show ?case
  proof (cases "n < 10")
    case True
    then have "str_nat n = [digit_char n]" by (subst str_nat.simps) simp
    with True digit_char_in_digits [of n] show ?thesis by simp
  next
    case False
    then have ih: "set (str_nat (n div 10)) \<subseteq> set ''0123456789''" using "1.IH" by simp
    have "str_nat n = str_nat (n div 10) @ [digit_char (n mod 10)]"
      using False by (subst str_nat.simps) simp
    with ih digit_char_in_digits [of "n mod 10"] show ?thesis by simp
  qed
qed

lemma digit_char_nonzero: "0 < d \<Longrightarrow> d < 10 \<Longrightarrow> digit_char d \<noteq> CHR ''0''"
proof -
  assume "0 < d" and "d < 10"
  then consider "d = 1" | "d = 2" | "d = 3" | "d = 4"
    | "d = 5" | "d = 6" | "d = 7" | "d = 8" | "d = 9"
    by atomize_elim arith
  then show ?thesis
    by cases (simp_all add: digit_char_def)
qed

lemma str_nat_no_leading_zero: "10 \<le> n \<Longrightarrow> hd (str_nat n) \<noteq> CHR ''0''"
proof (induction n rule: str_nat.induct)
  case (1 n)
  define m where "m = n div 10"
  from "1.prems" have big: "\<not> n < 10" by simp
  have step: "str_nat n = str_nat m @ [digit_char (n mod 10)]"
    unfolding m_def using big by (subst str_nat.simps) simp
  have ne: "str_nat m \<noteq> []" using str_nat_digits by blast
  from "1.prems" have pos: "0 < m" unfolding m_def by simp
  have "hd (str_nat m) \<noteq> CHR ''0''"
  proof (cases "m < 10")
    case True
    then have "str_nat m = [digit_char m]" by (subst str_nat.simps) simp
    with digit_char_nonzero [OF pos True] show ?thesis by simp
  next
    case False
    then have "10 \<le> n div 10" unfolding m_def by simp
    with big have "hd (str_nat (n div 10)) \<noteq> CHR ''0''" by (rule "1.IH")
    then show ?thesis unfolding m_def .
  qed
  with ne show ?case unfolding step by simp
qed

lemma int_of_str_str_int: "int_of_str (str_int i) = i"
proof (cases "i < 0")
  case True
  then show ?thesis
    by (simp add: str_int_def int_of_str_def nat_of_digits_str_nat)
next
  case False
  obtain c cs where shape: "str_nat (nat i) = c # cs"
    using str_nat_digits [of "nat i"] by (cases "str_nat (nat i)") auto
  then have "c \<in> set ''0123456789''"
    using str_nat_digits [of "nat i"] by auto
  then have "c \<noteq> CHR ''-''" by auto
  with False shape have "int_of_str (str_int i) = int (nat_of_digits (str_nat (nat i)))"
    by (simp add: str_int_def int_of_str_def)
  with False show ?thesis by (simp add: nat_of_digits_str_nat)
qed

lemma str_int_inj: "str_int i = str_int j \<Longrightarrow> i = j"
  by (metis int_of_str_str_int)

lemma str_int_sign: "(hd (str_int i) = CHR ''-'') = (i < 0)"
proof (cases "i < 0")
  case True
  then show ?thesis by (simp add: str_int_def)
next
  case False
  obtain c cs where shape: "str_nat (nat i) = c # cs"
    using str_nat_digits [of "nat i"] by (cases "str_nat (nat i)") auto
  then have "c \<in> set ''0123456789''"
    using str_nat_digits [of "nat i"] by auto
  then have "c \<noteq> CHR ''-''" by auto
  with False shape show ?thesis by (simp add: str_int_def)
qed

lemma revealed_answer_message:
  "revealed_answer (''Oh no! The correct answer was '' @ txt @ ''. Game over.'')
     = Some (int_of_str txt)"
  by (simp add: revealed_answer_def Let_def)

section \<open>A wrong answer\<close>

text \<open>
  Claim C4. In a playing state with a question on display, any integer other than the
  question's answer ends the session at once, whatever the round: the status becomes
  \<open>Game_Over\<close>, the question is cleared, and the message reveals the correct answer: it is
  \<^verbatim>\<open>Oh no! The correct answer was\<close>, the decimal text of the answer, and \<^verbatim>\<open>. Game over.\<close>,
  and reading the number in it gives back the answer of the question. Score and round are
  left as they were.
\<close>

theorem wrong_answer_ends_session:
  assumes "status gs = Playing" and "current_question gs = Some q" and "user_input \<noteq> answer q"
  shows "status (fst (check_answer gs user_input g)) = Game_Over
       \<and> current_question (fst (check_answer gs user_input g)) = None
       \<and> last_message (fst (check_answer gs user_input g))
           = ''Oh no! The correct answer was '' @ str_int (answer q) @ ''. Game over.''
       \<and> revealed_answer (last_message (fst (check_answer gs user_input g))) = Some (answer q)
       \<and> int_of_str (str_int (answer q)) = answer q
       \<and> score (fst (check_answer gs user_input g)) = score gs
       \<and> current_round (fst (check_answer gs user_input g)) = current_round gs"
proof -
  let ?s = "fst (check_answer gs user_input g)"
  have fields: "status ?s = Game_Over" "current_question ?s = None"
    "score ?s = score gs" "current_round ?s = current_round gs"
    using assms by (simp_all add: check_answer_wrong raise_form_fields)
  have msg: "last_message ?s
      = ''Oh no! The correct answer was '' @ str_int (answer q) @ ''. Game over.''"
    using assms by (simp add: check_answer_wrong raise_form_fields)
  have reread: "int_of_str (str_int (answer q)) = answer q"
    by (rule int_of_str_str_int)
  have "revealed_answer (last_message ?s) = Some (int_of_str (str_int (answer q)))"
    unfolding msg by (rule revealed_answer_message)
  then have shown: "revealed_answer (last_message ?s) = Some (answer q)"
    by (simp only: reread)
  from fields msg shown reread show ?thesis by blast
qed

theorem wrong_answer_ends_session_witness:
  "status (sample_state 1 0 False) = Playing
   \<and> current_question (sample_state 1 0 False) = Some (mk_question 6 7)
   \<and> (-3) \<noteq> answer (mk_question 6 7)
   \<and> status (fst (check_answer (sample_state 1 0 False) (-3) zero_tape)) = Game_Over
   \<and> current_question (fst (check_answer (sample_state 1 0 False) (-3) zero_tape)) = None
   \<and> last_message (fst (check_answer (sample_state 1 0 False) (-3) zero_tape))
        = ''Oh no! The correct answer was 42. Game over.''
   \<and> revealed_answer (last_message (fst (check_answer (sample_state 1 0 False) (-3) zero_tape)))
        = Some 42
   \<and> current_round (fst (check_answer (sample_state 1 0 False) (-3) zero_tape)) = 1"
proof -
  let ?s = "sample_state 1 0 False"
  have a: "status ?s = Playing" "current_question ?s = Some (mk_question 6 7)"
    "(-3) \<noteq> answer (mk_question 6 7)"
    by (simp_all add: sample_state_def mk_question_def)
  have ans: "answer (mk_question 6 7) = 42" by (simp add: mk_question_def)
  have dec: "str_int 42 = ''42''"
    by (simp add: str_int_def str_nat.simps digit_char_def)
  have rnd: "current_round ?s = 1" by (simp add: sample_state_def)
  from wrong_answer_ends_session [OF a, of zero_tape]
  have "status (fst (check_answer ?s (-3) zero_tape)) = Game_Over"
    and "current_question (fst (check_answer ?s (-3) zero_tape)) = None"
    and "last_message (fst (check_answer ?s (-3) zero_tape))
           = ''Oh no! The correct answer was '' @ ''42'' @ ''. Game over.''"
    and "revealed_answer (last_message (fst (check_answer ?s (-3) zero_tape))) = Some 42"
    and "current_round (fst (check_answer ?s (-3) zero_tape)) = 1"
    unfolding ans dec rnd by blast+
  with a show ?thesis by simp
qed

section \<open>The timer\<close>




section \<open>\<open>check_answer\<close> leaves its argument alone\<close>

text \<open>The store version writes, into a fresh copy, exactly the value of \<open>check_answer\<close>.\<close>

lemma assign_last: "assign (h @ [x]) (length h) f = h @ [f x]"
  by (simp add: assign_def)

lemma check_answer_st_value:
  "check_answer_st h p v g =
     (h @ [fst (check_answer (h ! p) v g)], length h, snd (check_answer (h ! p) v g))"
  by (simp add: check_answer_st_def dict_copy_def check_answer_def assign_last Let_def
      split: option.splits prod.splits)

text \<open>
  Claim C7. \<open>check_answer\<close> works on a fresh copy: the reference it returns is a new one,
  different from the one it was given, every dictionary of the store as it was (the input
  among them) still holds the same items afterwards, and the new dictionary holds the
  value that \<open>check_answer\<close> computes from the input's. When the input has no current
  question, the new dictionary equals the input in value, and no draw is made.
\<close>

theorem check_answer_copies:
  assumes "p < length h"
  shows "fst (snd (check_answer_st h p v g)) = length h
       \<and> fst (snd (check_answer_st h p v g)) \<noteq> p
       \<and> length (fst (check_answer_st h p v g)) = Suc (length h)
       \<and> take (length h) (fst (check_answer_st h p v g)) = h
       \<and> fst (check_answer_st h p v g) ! p = h ! p
       \<and> fst (check_answer_st h p v g) ! fst (snd (check_answer_st h p v g))
            = fst (check_answer (h ! p) v g)
       \<and> (current_question (h ! p) = None \<longrightarrow>
            fst (check_answer_st h p v g) ! fst (snd (check_answer_st h p v g)) = h ! p
          \<and> fst (check_answer (h ! p) v g) = h ! p
          \<and> snd (snd (check_answer_st h p v g)) = g)"
  using assms
  by (simp add: check_answer_st_value nth_append check_answer_absent)

theorem check_answer_copies_witness:
  "(0::nat) < length [initialize_game_state, sample_state 3 2 False]
   \<and> current_question ([initialize_game_state, sample_state 3 2 False] ! 0) = None
   \<and> fst (check_answer_st [initialize_game_state, sample_state 3 2 False] 0 42 zero_tape)
       = [initialize_game_state, sample_state 3 2 False, initialize_game_state]
   \<and> fst (snd (check_answer_st [initialize_game_state, sample_state 3 2 False] 0 42 zero_tape)) = 2
   \<and> (1::nat) < length [initialize_game_state, sample_state 3 2 False]
   \<and> fst (check_answer_st [initialize_game_state, sample_state 3 2 False] 1 41 zero_tape) ! 1
       = sample_state 3 2 False
   \<and> status (fst (check_answer_st [initialize_game_state, sample_state 3 2 False] 1 41 zero_tape) ! 2)
       = Game_Over
   \<and> fst (snd (check_answer_st [initialize_game_state, sample_state 3 2 False] 1 41 zero_tape)) = 2"
  using check_answer_copies [of 0 "[initialize_game_state, sample_state 3 2 False]" 42 zero_tape]
    check_answer_copies [of 1 "[initialize_game_state, sample_state 3 2 False]" 41 zero_tape]
  by (simp add: check_answer_st_value check_answer_def initialize_game_state_def sample_state_def
      mk_question_def raise_form_def)

section \<open>The invariant of the session state\<close>

lemma inv_initial: "question_iff_playing initialize_game_state"
  by (simp add: question_iff_playing_def initialize_game_state_def)

lemma inv_start: "question_iff_playing (fst (start_game_callback now g))"
  by (simp add: question_iff_playing_def start_game_callback_def initialize_game_state_def
      Let_def split: prod.splits)

lemma inv_check_answer:
  assumes "question_iff_playing gs"
  shows "question_iff_playing (fst (check_answer gs v g))"
proof (cases "current_question gs")
  case None
  with assms show ?thesis by (simp add: check_answer_absent)
next
  case (Some q)
  with assms have playing: "status gs = Playing"
    by (simp add: question_iff_playing_def)
  show ?thesis
  proof (cases "v = answer q")
    case False
    with Some show ?thesis
      by (simp add: check_answer_wrong question_iff_playing_def raise_form_fields)
  next
    case True
    show ?thesis
    proof (cases "TOTAL_ROUNDS < current_round gs + 1")
      case True
      with Some \<open>v = answer q\<close> show ?thesis
        by (simp add: check_answer_last question_iff_playing_def raise_form_fields)
    next
      case False
      then have "current_round gs + 1 \<le> TOTAL_ROUNDS" by simp
      with Some \<open>v = answer q\<close> playing show ?thesis
        by (simp add: check_answer_next question_iff_playing_def)
    qed
  qed
qed

lemma inv_check_timer:
  assumes "question_iff_playing gs" and "check_timer float_sub gs now = Inr gs'"
  shows "question_iff_playing gs'"
  using assms
  by (auto simp: check_timer_def Let_def question_iff_playing_def raise_form_fields
      split: if_splits option.splits)

lemma inv_reachable: "reachable gs \<Longrightarrow> question_iff_playing gs"
proof (induction rule: reachable.induct)
  case r_init
  show ?case by (rule inv_initial)
next
  case (r_start now g)
  show ?case by (rule inv_start)
next
  case (r_answer gs user_input g)
  then show ?case by (simp add: inv_check_answer)
next
  case (r_timer gs float_sub now gs')
  then show ?case by (blast intro: inv_check_timer)
next
  case r_restart
  show ?case by (simp add: restart_game_callback_def inv_initial)
qed

text \<open>
  Claim C9. A question is present exactly when the status is \<open>Playing\<close>: this holds of the
  initial state and of the state that starting a game builds, \<open>check_answer\<close> and
  \<open>check_timer\<close> preserve it, restarting re-establishes it, and so it holds of every
  state a session reaches.
\<close>

theorem question_iff_playing_invariant:
  "question_iff_playing initialize_game_state
   \<and> question_iff_playing (fst (start_game_callback now g))
   \<and> (question_iff_playing gs \<longrightarrow> question_iff_playing (fst (check_answer gs v g)))
   \<and> (question_iff_playing gs \<and> check_timer float_sub gs now = Inr gs' \<longrightarrow> question_iff_playing gs')
   \<and> question_iff_playing restart_game_callback
   \<and> (reachable gs \<longrightarrow> question_iff_playing gs)"
  by (auto simp: inv_initial inv_start inv_check_answer restart_game_callback_def inv_reachable
      intro: inv_check_timer)

theorem question_iff_playing_invariant_witness:
  "question_iff_playing (fst (start_game_callback 1000 zero_tape))
   \<and> reachable (fst (start_game_callback 1000 zero_tape))
   \<and> current_question (fst (start_game_callback 1000 zero_tape)) = Some (mk_question 1 1)
   \<and> status (fst (start_game_callback 1000 zero_tape)) = Playing
   \<and> question_iff_playing (fst (check_answer (fst (start_game_callback 1000 zero_tape)) 5 zero_tape))
   \<and> status (fst (check_answer (fst (start_game_callback 1000 zero_tape)) 5 zero_tape)) = Game_Over
   \<and> (\<exists>gs'. check_timer (\<lambda>x y. x - y) (fst (start_game_callback 1000 zero_tape)) 1301 = Inr gs'
         \<and> status gs' = Game_Over \<and> question_iff_playing gs')"
proof -
  let ?s = "fst (start_game_callback 1000 zero_tape)"
  have s: "?s = \<lparr> status = Playing, current_round = 1, score = 0,
       current_question = Some (mk_question 1 1), start_time = Some 1000,
       last_message = ''Here is your first question. Good luck!'',
       show_highscore_form = False \<rparr>"
    by (simp add: start_game_callback_def initialize_game_state_def generate_question_def
        random_randint_def next_raw_def zero_tape_def PHASE_1_END_ROUND_def PHASE_1_RANGE_def)
  have r: "reachable ?s" by (rule r_start)
  have t: "check_timer (\<lambda>x y. x - y) ?s 1301 = Inr (?s\<lparr>status := Game_Over,
        last_message := ''Time is up! Game over.'', current_question := None\<rparr>)"
    by (simp add: s check_timer_def raise_form_def SESSION_TIME_LIMIT_SECONDS_def)
  note th = question_iff_playing_invariant [of 1000 zero_tape ?s 5 "\<lambda>x y. x - y"]
  have i: "question_iff_playing ?s" using th r by blast
  have a: "question_iff_playing (fst (check_answer ?s 5 zero_tape))" using th i by blast
  have b: "question_iff_playing (?s\<lparr>status := Game_Over,
        last_message := ''Time is up! Game over.'', current_question := None\<rparr>)"
    using question_iff_playing_invariant [of 1301 zero_tape ?s 5 "\<lambda>x y. x - y"] i t by blast
  have c: "status (fst (check_answer ?s 5 zero_tape)) = Game_Over"
    by (simp add: s check_answer_def mk_question_def raise_form_def)
  have d: "current_question ?s = Some (mk_question 1 1)" "status ?s = Playing"
    by (simp_all add: s)
  show ?thesis using i r a b c d t by simp
qed

section \<open>Questions\<close>

lemma random_randint_range:
  assumes "lo \<le> hi"
  shows "lo \<le> fst (random_randint lo hi g) \<and> fst (random_randint lo hi g) \<le> hi"
proof -
  have pos: "0 < nat (hi - lo + 1)" using assms by simp
  have "g 0 mod nat (hi - lo + 1) < nat (hi - lo + 1)"
    using pos by (rule mod_less_divisor)
  then have "int (g 0 mod nat (hi - lo + 1)) < hi - lo + 1"
    using assms by linarith
  then show ?thesis
    by (simp add: random_randint_def next_raw_def)
qed

lemma small_draw:
  "1 \<le> fst (random_randint (fst PHASE_1_RANGE) (snd PHASE_1_RANGE) g)
   \<and> fst (random_randint (fst PHASE_1_RANGE) (snd PHASE_1_RANGE) g) \<le> 10"
  using random_randint_range [of 1 10 g] by (simp add: PHASE_1_RANGE_def)

lemma large_draw:
  "11 \<le> fst (random_randint (fst PHASE_2_RANGE) (snd PHASE_2_RANGE) g)
   \<and> fst (random_randint (fst PHASE_2_RANGE) (snd PHASE_2_RANGE) g) \<le> 20"
  using random_randint_range [of 11 20 g] by (simp add: PHASE_2_RANGE_def)

lemma generate_question_phase_1:
  assumes "r \<le> 7"
  shows "generate_question r g =
     (mk_question (fst (random_randint (fst PHASE_1_RANGE) (snd PHASE_1_RANGE) g))
        (fst (random_randint (fst PHASE_1_RANGE) (snd PHASE_1_RANGE)
               (snd (random_randint (fst PHASE_1_RANGE) (snd PHASE_1_RANGE) g)))),
      snd (random_randint (fst PHASE_1_RANGE) (snd PHASE_1_RANGE)
               (snd (random_randint (fst PHASE_1_RANGE) (snd PHASE_1_RANGE) g))))"
  using assms by (simp add: generate_question_def PHASE_1_END_ROUND_def split: prod.splits)

lemma generate_question_phase_3:
  assumes "14 < r"
  shows "generate_question r g =
     (mk_question (fst (random_randint (fst PHASE_2_RANGE) (snd PHASE_2_RANGE) g))
        (fst (random_randint (fst PHASE_2_RANGE) (snd PHASE_2_RANGE)
               (snd (random_randint (fst PHASE_2_RANGE) (snd PHASE_2_RANGE) g)))),
      snd (random_randint (fst PHASE_2_RANGE) (snd PHASE_2_RANGE)
               (snd (random_randint (fst PHASE_2_RANGE) (snd PHASE_2_RANGE) g))))"
  using assms
  by (simp add: generate_question_def PHASE_1_END_ROUND_def PHASE_2_END_ROUND_def
      split: prod.splits)

lemma generate_question_phase_2:
  assumes "7 < r" and "r \<le> 14"
  shows "\<exists>x y. 1 \<le> x \<and> x \<le> 10 \<and> 11 \<le> y \<and> y \<le> 20
     \<and> (fst (generate_question r g) = mk_question x y
        \<or> fst (generate_question r g) = mk_question y x)"
proof -
  let ?d1 = "random_randint (fst PHASE_1_RANGE) (snd PHASE_1_RANGE) g"
  let ?d2 = "random_randint (fst PHASE_2_RANGE) (snd PHASE_2_RANGE) (snd ?d1)"
  have "fst (generate_question r g) = mk_question (fst ?d1) (fst ?d2)
      \<or> fst (generate_question r g) = mk_question (fst ?d2) (fst ?d1)"
    using assms
    by (simp add: generate_question_def PHASE_1_END_ROUND_def PHASE_2_END_ROUND_def
        split: prod.splits)
  with small_draw [of g] large_draw [of "snd ?d1"] show ?thesis by blast
qed

lemma generate_question_product:
  "answer (fst (generate_question r g))
     = qa (fst (generate_question r g)) * qb (fst (generate_question r g))"
  by (simp add: generate_question_def mk_question_def split: prod.splits)

text \<open>
  Claim C8. For a round \<open>r \<ge> 1\<close> and any draws, the question that \<open>generate_question\<close>
  returns has \<open>answer = a * b\<close>; in rounds 1-7 both operands lie in 1..10; in rounds 8-14 one
  operand lies in 1..10 and the other in 11..20, in either order; in rounds 15-20 both lie
  in 11..20.
\<close>

theorem generate_question_ranges:
  assumes "1 \<le> r"
  shows "answer (fst (generate_question r g))
           = qa (fst (generate_question r g)) * qb (fst (generate_question r g))
       \<and> (r \<le> 7 \<longrightarrow>
            1 \<le> qa (fst (generate_question r g)) \<and> qa (fst (generate_question r g)) \<le> 10
          \<and> 1 \<le> qb (fst (generate_question r g)) \<and> qb (fst (generate_question r g)) \<le> 10)
       \<and> (8 \<le> r \<and> r \<le> 14 \<longrightarrow>
            (1 \<le> qa (fst (generate_question r g)) \<and> qa (fst (generate_question r g)) \<le> 10
               \<and> 11 \<le> qb (fst (generate_question r g)) \<and> qb (fst (generate_question r g)) \<le> 20)
          \<or> (11 \<le> qa (fst (generate_question r g)) \<and> qa (fst (generate_question r g)) \<le> 20
               \<and> 1 \<le> qb (fst (generate_question r g)) \<and> qb (fst (generate_question r g)) \<le> 10))
       \<and> (15 \<le> r \<and> r \<le> 20 \<longrightarrow>
            11 \<le> qa (fst (generate_question r g)) \<and> qa (fst (generate_question r g)) \<le> 20
          \<and> 11 \<le> qb (fst (generate_question r g)) \<and> qb (fst (generate_question r g)) \<le> 20)"
proof -
  let ?q = "fst (generate_question r g)"
  have p: "answer ?q = qa ?q * qb ?q"
    by (rule generate_question_product)
  have a: "1 \<le> qa ?q \<and> qa ?q \<le> 10 \<and> 1 \<le> qb ?q \<and> qb ?q \<le> 10" if "r \<le> 7"
    using that small_draw by (simp add: generate_question_phase_1 mk_question_def)
  have b: "(1 \<le> qa ?q \<and> qa ?q \<le> 10 \<and> 11 \<le> qb ?q \<and> qb ?q \<le> 20)
         \<or> (11 \<le> qa ?q \<and> qa ?q \<le> 20 \<and> 1 \<le> qb ?q \<and> qb ?q \<le> 10)"
    if "8 \<le> r \<and> r \<le> 14"
  proof -
    from that have "7 < r" "r \<le> 14" by simp_all
    from generate_question_phase_2 [OF this, of g] show ?thesis
      by (auto simp: mk_question_def)
  qed
  have c: "11 \<le> qa ?q \<and> qa ?q \<le> 20 \<and> 11 \<le> qb ?q \<and> qb ?q \<le> 20" if "15 \<le> r \<and> r \<le> 20"
  proof -
    from that have "14 < r" by simp
    then show ?thesis
      using large_draw by (simp add: generate_question_phase_3 mk_question_def)
  qed
  from p a b c show ?thesis by blast
qed

text \<open>Draws on the two sample tapes: the second one swaps the operands of phase 2.\<close>

lemma gq_zero_3: "fst (generate_question 3 zero_tape) = mk_question 1 1"
  by (simp add: generate_question_def random_randint_def next_raw_def zero_tape_def
      PHASE_1_END_ROUND_def PHASE_1_RANGE_def)

lemma gq_zero_10: "fst (generate_question 10 zero_tape) = mk_question 1 11"
  by (simp add: generate_question_def random_randint_def random_random_def next_raw_def
      zero_tape_def PHASE_1_END_ROUND_def PHASE_2_END_ROUND_def PHASE_1_RANGE_def
      PHASE_2_RANGE_def)

lemma gq_high_10: "fst (generate_question 10 high_tape) = mk_question 12 2"
  by (simp add: generate_question_def random_randint_def random_random_def next_raw_def
      high_tape_def PHASE_1_END_ROUND_def PHASE_2_END_ROUND_def PHASE_1_RANGE_def
      PHASE_2_RANGE_def)

lemma gq_high_17: "fst (generate_question 17 high_tape) = mk_question 12 12"
  by (simp add: generate_question_def random_randint_def next_raw_def
      high_tape_def PHASE_1_END_ROUND_def PHASE_2_END_ROUND_def PHASE_2_RANGE_def)

theorem generate_question_ranges_witness:
  "(1::int) \<le> 3 \<and> fst (generate_question 3 zero_tape) = \<lparr>qa = 1, qb = 1, answer = 1\<rparr>
   \<and> (1::int) \<le> 10 \<and> (8::int) \<le> 10 \<and> (10::int) \<le> 14
   \<and> fst (generate_question 10 zero_tape) = \<lparr>qa = 1, qb = 11, answer = 11\<rparr>
   \<and> fst (generate_question 10 high_tape) = \<lparr>qa = 12, qb = 2, answer = 24\<rparr>
   \<and> (1::int) \<le> 17 \<and> (15::int) \<le> 17 \<and> (17::int) \<le> 20
   \<and> fst (generate_question 17 high_tape) = \<lparr>qa = 12, qb = 12, answer = 144\<rparr>
   \<and> 11 \<le> qa (fst (generate_question 17 high_tape))
   \<and> qb (fst (generate_question 10 high_tape)) \<le> 10"
  using generate_question_ranges [of 3 zero_tape] generate_question_ranges [of 10 zero_tape]
    generate_question_ranges [of 10 high_tape] generate_question_ranges [of 17 high_tape]
  by (simp add: gq_zero_3 gq_zero_10 gq_high_10 gq_high_17 mk_question_def)

section \<open>The sort of the leaderboard\<close>

lemma mset_insort_desc: "mset (insort_desc k x xs) = add_mset x (mset xs)"
  by (induction xs) simp_all

lemma mset_list_sort_reverse: "mset (list_sort_reverse k xs) = mset xs"
  by (induction xs) (simp_all add: mset_insort_desc)

lemma set_insort_desc: "set (insort_desc k x xs) = insert x (set xs)"
  by (induction xs) auto

lemma length_list_sort_reverse: "length (list_sort_reverse k xs) = length xs"
  using mset_list_sort_reverse [of k xs] by (metis size_mset)

lemma desc_insort_desc:
  "sorted_wrt (\<lambda>a b. k b \<le> k a) xs \<Longrightarrow> sorted_wrt (\<lambda>a b. k b \<le> k a) (insort_desc k x xs)"
  by (induction xs) (auto simp: set_insort_desc)

lemma desc_list_sort_reverse: "sorted_wrt (\<lambda>a b. k b \<le> k a) (list_sort_reverse k xs)"
  by (induction xs) (simp_all add: desc_insort_desc)

lemma filter_insort_desc:
  "filter (\<lambda>e. k e = c) (insort_desc k x xs)
     = (if k x = c then x # filter (\<lambda>e. k e = c) xs else filter (\<lambda>e. k e = c) xs)"
  by (induction xs) auto

lemma stable_list_sort_reverse:
  "filter (\<lambda>e. k e = c) (list_sort_reverse k xs) = filter (\<lambda>e. k e = c) xs"
  by (induction xs) (simp_all add: filter_insort_desc)

text \<open>
  A list in descending key order that keeps, for every key, the elements of that key in a
  given order is determined: there is one stable descending sort of a list.
\<close>

lemma stable_desc_unique:
  fixes k :: "'a \<Rightarrow> int"
  assumes "sorted_wrt (\<lambda>a b. k b \<le> k a) xs" and "sorted_wrt (\<lambda>a b. k b \<le> k a) ys"
    and "\<And>c. filter (\<lambda>e. k e = c) xs = filter (\<lambda>e. k e = c) ys"
  shows "xs = ys"
  using assms
proof (induction xs arbitrary: ys)
  case Nil
  show ?case
  proof (cases ys)
    case Nil
    then show ?thesis by simp
  next
    case (Cons b ys')
    have "filter (\<lambda>e. k e = k b) [] = filter (\<lambda>e. k e = k b) (b # ys')"
      using Nil.prems(3) [of "k b"] unfolding Cons .
    then show ?thesis by simp
  qed
next
  case (Cons a xs)
  show ?case
  proof (cases ys)
    case Nil
    have "filter (\<lambda>e. k e = k a) (a # xs) = filter (\<lambda>e. k e = k a) []"
      using Cons.prems(3) [of "k a"] unfolding Nil .
    then show ?thesis by simp
  next
    case ys: (Cons b ys')
    have same: "filter (\<lambda>e. k e = c) (a # xs) = filter (\<lambda>e. k e = c) (b # ys')" for c
      using Cons.prems(3) [of c] unfolding ys .
    have s1: "sorted_wrt (\<lambda>a b. k b \<le> k a) xs" and below1: "\<forall>e \<in> set xs. k e \<le> k a"
      using Cons.prems(1) by simp_all
    have "sorted_wrt (\<lambda>a b. k b \<le> k a) (b # ys')"
      using Cons.prems(2) unfolding ys .
    then have s2: "sorted_wrt (\<lambda>a b. k b \<le> k a) ys'" and below2: "\<forall>e \<in> set ys'. k e \<le> k b"
      by simp_all
    have "b \<in> set (filter (\<lambda>e. k e = k b) (b # ys'))" by simp
    then have "b \<in> set (filter (\<lambda>e. k e = k b) (a # xs))"
      by (simp only: same)
    then have "b \<in> set (a # xs)" by (auto split: if_splits)
    with below1 have le1: "k b \<le> k a" by auto
    have "a \<in> set (filter (\<lambda>e. k e = k a) (a # xs))" by simp
    then have "a \<in> set (filter (\<lambda>e. k e = k a) (b # ys'))"
      by (simp only: same)
    then have "a \<in> set (b # ys')" by (auto split: if_splits)
    with below2 have le2: "k a \<le> k b" by auto
    from le1 le2 have keq: "k b = k a" by simp
    have fa: "filter (\<lambda>e. k e = k a) (a # xs) = a # filter (\<lambda>e. k e = k a) xs"
      by simp
    have fb: "filter (\<lambda>e. k e = k a) (b # ys') = b # filter (\<lambda>e. k e = k a) ys'"
      by (simp add: keq)
    have head: "a # filter (\<lambda>e. k e = k a) xs = b # filter (\<lambda>e. k e = k a) ys'"
      using same [of "k a"] unfolding fa fb .
    from head have ab: "a = b"
      by (rule list.inject [THEN iffD1, THEN conjunct1])
    from head have t0: "filter (\<lambda>e. k e = k a) xs = filter (\<lambda>e. k e = k a) ys'"
      by (rule list.inject [THEN iffD1, THEN conjunct2])
    have tails: "filter (\<lambda>e. k e = c) xs = filter (\<lambda>e. k e = c) ys'" for c
    proof (cases "k a = c")
      case True
      from t0 show ?thesis unfolding True .
    next
      case False
      have ga: "filter (\<lambda>e. k e = c) (a # xs) = filter (\<lambda>e. k e = c) xs"
        using False by simp
      have gb: "filter (\<lambda>e. k e = c) (b # ys') = filter (\<lambda>e. k e = c) ys'"
        using False by (simp add: keq)
      from same [of c] show ?thesis unfolding ga gb .
    qed
    have "xs = ys'" using s1 s2 tails by (rule Cons.IH)
    with ab show ?thesis unfolding ys by simp
  qed
qed

text \<open>A descending list falls into the keys above, at and below any bound.\<close>

lemma desc_split:
  fixes k :: "'a \<Rightarrow> int"
  assumes "sorted_wrt (\<lambda>a b. k b \<le> k a) xs"
  shows "xs = filter (\<lambda>e. c < k e) xs @ filter (\<lambda>e. k e = c) xs @ filter (\<lambda>e. k e < c) xs"
  using assms
proof (induction xs)
  case Nil
  show ?case by simp
next
  case (Cons a xs)
  then have below: "\<forall>b \<in> set xs. k b \<le> k a" and ih:
    "xs = filter (\<lambda>e. c < k e) xs @ filter (\<lambda>e. k e = c) xs @ filter (\<lambda>e. k e < c) xs"
    by simp_all
  consider "c < k a" | "k a = c" | "k a < c" by linarith
  then show ?case
  proof cases
    case 1
    with ih show ?thesis by simp
  next
    case 2
    with below have "filter (\<lambda>e. c < k e) xs = []"
      by (auto simp: filter_empty_conv)
    with 2 ih show ?thesis by simp
  next
    case 3
    with below have "filter (\<lambda>e. c < k e) xs = []" "filter (\<lambda>e. k e = c) xs = []"
      by (auto simp: filter_empty_conv)
    with 3 ih show ?thesis by simp
  qed
qed

text \<open>
  Where an appended element lands: behind every element whose key is at least its own, and
  the other elements are placed as if it had not been appended.
\<close>

lemma length_filter_ge:
  fixes k :: "'a \<Rightarrow> int"
  shows "length (filter (\<lambda>e. c \<le> k e) xs)
     = length (filter (\<lambda>e. c < k e) xs) + length (filter (\<lambda>e. k e = c) xs)"
  by (induction xs) auto

lemma sort_appended_split:
  fixes k :: "'a \<Rightarrow> int"
  shows "\<exists>ys zs. list_sort_reverse k (xs @ [x]) = ys @ x # zs
     \<and> list_sort_reverse k xs = ys @ zs
     \<and> length ys = length (filter (\<lambda>e. k x \<le> k e) xs)"
proof -
  let ?L = "list_sort_reverse k (xs @ [x])"
  let ?A = "filter (\<lambda>e. k x < k e) ?L"
  define ys where "ys = ?A @ filter (\<lambda>e. k e = k x) xs"
  define zs where "zs = filter (\<lambda>e. k e < k x) ?L"
  have split: "?L = ?A @ filter (\<lambda>e. k e = k x) ?L @ filter (\<lambda>e. k e < k x) ?L"
    by (rule desc_split) (rule desc_list_sort_reverse)
  have eq: "filter (\<lambda>e. k e = k x) ?L = filter (\<lambda>e. k e = k x) xs @ [x]"
    by (simp add: stable_list_sort_reverse)
  have "mset ?A = filter_mset (\<lambda>e. k x < k e) (mset (xs @ [x]))"
    by (simp only: mset_filter mset_list_sort_reverse)
  also have "\<dots> = mset (filter (\<lambda>e. k x < k e) xs)" by simp
  finally have "length ?A = length (filter (\<lambda>e. k x < k e) xs)"
    by (metis size_mset)
  then have len: "length ys = length (filter (\<lambda>e. k x \<le> k e) xs)"
    unfolding ys_def by (simp add: length_filter_ge)
  from split eq have L: "?L = ys @ x # zs"
    unfolding ys_def zs_def by simp
  have "sorted_wrt (\<lambda>a b. k b \<le> k a) (ys @ x # zs)"
    using desc_list_sort_reverse [of k "xs @ [x]"] unfolding L .
  then have desc: "sorted_wrt (\<lambda>a b. k b \<le> k a) (ys @ zs)"
    by (auto simp: sorted_wrt_append)
  have low: "\<forall>e \<in> set zs. k e < k x"
    unfolding zs_def by simp
  have same: "filter (\<lambda>e. k e = c) (ys @ zs) = filter (\<lambda>e. k e = c) (list_sort_reverse k xs)"
    for c
  proof -
    have both: "filter (\<lambda>e. k e = c) (ys @ x # zs) = filter (\<lambda>e. k e = c) (xs @ [x])"
      using stable_list_sort_reverse [of k c "xs @ [x]"] unfolding L .
    have "filter (\<lambda>e. k e = c) (ys @ zs) = filter (\<lambda>e. k e = c) xs"
    proof (cases "k x = c")
      case False
      with both show ?thesis by simp
    next
      case True
      with low have none: "filter (\<lambda>e. k e = c) zs = []"
        by (auto simp: filter_empty_conv)
      from both True none
      have "filter (\<lambda>e. k e = c) ys @ [x] = filter (\<lambda>e. k e = c) xs @ [x]"
        by simp
      then have "filter (\<lambda>e. k e = c) ys = filter (\<lambda>e. k e = c) xs"
        by simp
      with none show ?thesis by simp
    qed
    then show ?thesis by (simp only: stable_list_sort_reverse)
  qed
  have "ys @ zs = list_sort_reverse k xs"
    using desc desc_list_sort_reverse same by (rule stable_desc_unique)
  with L len show ?thesis by metis
qed

section \<open>The leaderboard after \<open>add_highscore\<close>\<close>

lemma add_highscore_sorted:
  "add_highscore name sc current_scores t =
     take 10 (list_sort_reverse score_key
       (current_scores @ [\<lparr>entry_name = name, entry_score = Some sc, entry_date = t\<rparr>]))"
  by (simp add: add_highscore_def MAX_HIGHSCORES_def)

text \<open>
  Claim C6. For every name, score, clock text and list of current entries, \<open>add_highscore\<close>
  returns the first ten elements of the stable descending sort of the current entries
  with the new entry appended: a list \<open>L\<close> with the same elements, in descending order of
  score, in which the entries of each score keep their original relative order. Such an
  \<open>L\<close> exists, and whichever list has these properties gives the same result. The result
  has ten entries, or all of them when there are fewer.
\<close>

theorem add_highscore_stable_top_ten:
  "(\<exists>L. mset L = mset (current_scores
            @ [\<lparr>entry_name = name, entry_score = Some sc, entry_date = t\<rparr>])
        \<and> sorted_wrt (\<lambda>x y. score_key y \<le> score_key x) L
        \<and> (\<forall>c. filter (\<lambda>e. score_key e = c) L
              = filter (\<lambda>e. score_key e = c)
                  (current_scores @ [\<lparr>entry_name = name, entry_score = Some sc, entry_date = t\<rparr>]))
        \<and> add_highscore name sc current_scores t = take 10 L)
   \<and> (\<forall>L. sorted_wrt (\<lambda>x y. score_key y \<le> score_key x) L
        \<and> (\<forall>c. filter (\<lambda>e. score_key e = c) L
              = filter (\<lambda>e. score_key e = c)
                  (current_scores @ [\<lparr>entry_name = name, entry_score = Some sc, entry_date = t\<rparr>]))
        \<longrightarrow> add_highscore name sc current_scores t = take 10 L)
   \<and> length (add_highscore name sc current_scores t) = min 10 (Suc (length current_scores))"
proof -
  let ?inp = "current_scores @ [\<lparr>entry_name = name, entry_score = Some sc, entry_date = t\<rparr>]"
  let ?S = "list_sort_reverse score_key ?inp"
  have res: "add_highscore name sc current_scores t = take 10 ?S"
    by (rule add_highscore_sorted)
  have desc: "sorted_wrt (\<lambda>x y. score_key y \<le> score_key x) ?S"
    by (rule desc_list_sort_reverse)
  have stable: "filter (\<lambda>e. score_key e = c) ?S = filter (\<lambda>e. score_key e = c) ?inp" for c
    by (rule stable_list_sort_reverse)
  have perm: "mset ?S = mset ?inp"
    by (rule mset_list_sort_reverse)
  have ex: "\<exists>L. mset L = mset ?inp
        \<and> sorted_wrt (\<lambda>x y. score_key y \<le> score_key x) L
        \<and> (\<forall>c. filter (\<lambda>e. score_key e = c) L = filter (\<lambda>e. score_key e = c) ?inp)
        \<and> add_highscore name sc current_scores t = take 10 L"
    using perm desc stable res by blast
  have uniq: "add_highscore name sc current_scores t = take 10 L"
    if "sorted_wrt (\<lambda>x y. score_key y \<le> score_key x) L
        \<and> (\<forall>c. filter (\<lambda>e. score_key e = c) L = filter (\<lambda>e. score_key e = c) ?inp)" for L
  proof -
    from that have d: "sorted_wrt (\<lambda>x y. score_key y \<le> score_key x) L"
      and f: "\<And>c. filter (\<lambda>e. score_key e = c) L = filter (\<lambda>e. score_key e = c) ?S"
      by (simp_all only: stable)
    have "L = ?S" using d desc f by (rule stable_desc_unique)
    with res show ?thesis by simp
  qed
  have len: "length (add_highscore name sc current_scores t) = min 10 (Suc (length current_scores))"
    by (simp add: res length_list_sort_reverse min.commute)
  from ex uniq len show ?thesis by blast
qed

theorem add_highscore_stable_top_ten_witness:
  "sorted_wrt (\<lambda>x y. score_key y \<le> score_key x)
     [sample_entry ''Bob'' 7, sample_entry ''Ada'' 5, sample_entry ''Cy'' 5,
      \<lparr>entry_name = ''Dan'', entry_score = Some 5, entry_date = ''2024-01-02 09:30''\<rparr>]
   \<and> (\<forall>c. filter (\<lambda>e. score_key e = c)
            [sample_entry ''Bob'' 7, sample_entry ''Ada'' 5, sample_entry ''Cy'' 5,
             \<lparr>entry_name = ''Dan'', entry_score = Some 5, entry_date = ''2024-01-02 09:30''\<rparr>]
         = filter (\<lambda>e. score_key e = c)
            ([sample_entry ''Ada'' 5, sample_entry ''Bob'' 7, sample_entry ''Cy'' 5]
              @ [\<lparr>entry_name = ''Dan'', entry_score = Some 5, entry_date = ''2024-01-02 09:30''\<rparr>]))
   \<and> add_highscore ''Dan'' 5 [sample_entry ''Ada'' 5, sample_entry ''Bob'' 7, sample_entry ''Cy'' 5]
        ''2024-01-02 09:30''
       = [sample_entry ''Bob'' 7, sample_entry ''Ada'' 5, sample_entry ''Cy'' 5,
          \<lparr>entry_name = ''Dan'', entry_score = Some 5, entry_date = ''2024-01-02 09:30''\<rparr>]"
proof -
  let ?L = "[sample_entry ''Bob'' 7, sample_entry ''Ada'' 5, sample_entry ''Cy'' 5,
      \<lparr>entry_name = ''Dan'', entry_score = Some 5, entry_date = ''2024-01-02 09:30''\<rparr>]"
  have d: "sorted_wrt (\<lambda>x y. score_key y \<le> score_key x) ?L"
    by (simp add: sample_entry_def score_key_def)
  have f: "\<forall>c. filter (\<lambda>e. score_key e = c) ?L
         = filter (\<lambda>e. score_key e = c)
            ([sample_entry ''Ada'' 5, sample_entry ''Bob'' 7, sample_entry ''Cy'' 5]
              @ [\<lparr>entry_name = ''Dan'', entry_score = Some 5, entry_date = ''2024-01-02 09:30''\<rparr>])"
    by (simp add: sample_entry_def score_key_def)
  from add_highscore_stable_top_ten
    [of "[sample_entry ''Ada'' 5, sample_entry ''Bob'' 7, sample_entry ''Cy'' 5]"
        "''Dan''" 5 "''2024-01-02 09:30''"] d f
  have "add_highscore ''Dan'' 5 [sample_entry ''Ada'' 5, sample_entry ''Bob'' 7, sample_entry ''Cy'' 5]
        ''2024-01-02 09:30'' = take 10 ?L"
    by blast
  with d f show ?thesis by simp
qed

section \<open>No validation of a new entry\<close>

text \<open>
  Claim C10, as the code has it. \<open>add_highscore\<close> is defined for every name and score and
  checks neither: the entry it builds carries the name and the score as given. The result
  is the first ten entries of the current entries in stable descending order of score with
  the new entry put behind those whose score is at least its own. So the new entry is in the
  returned leaderboard, at that position, whenever fewer than ten current entries have such
  a score; otherwise the cut to ten entries drops it, and the result is the first ten of
  the current entries in that order. The examples add an empty name with a negative score,
  and an untrimmed name of more than twenty characters, to a short and to a full
  leaderboard.
\<close>

theorem add_highscore_no_validation:
  "add_highscore name sc current_scores t
     = take MAX_HIGHSCORES
         (take (length (filter (\<lambda>e. sc \<le> score_key e) current_scores))
               (list_sort_reverse score_key current_scores)
          @ \<lparr>entry_name = name, entry_score = Some sc, entry_date = t\<rparr>
          # drop (length (filter (\<lambda>e. sc \<le> score_key e) current_scores))
               (list_sort_reverse score_key current_scores))
   \<and> (length (filter (\<lambda>e. sc \<le> score_key e) current_scores) < MAX_HIGHSCORES \<longrightarrow>
         length (filter (\<lambda>e. sc \<le> score_key e) current_scores)
           < length (add_highscore name sc current_scores t)
       \<and> add_highscore name sc current_scores t
           ! length (filter (\<lambda>e. sc \<le> score_key e) current_scores)
         = \<lparr>entry_name = name, entry_score = Some sc, entry_date = t\<rparr>)
   \<and> (MAX_HIGHSCORES \<le> length (filter (\<lambda>e. sc \<le> score_key e) current_scores) \<longrightarrow>
         add_highscore name sc current_scores t
           = take MAX_HIGHSCORES (list_sort_reverse score_key current_scores))"
proof -
  let ?x = "\<lparr>entry_name = name, entry_score = Some sc, entry_date = t\<rparr>"
  let ?n = "length (filter (\<lambda>e. sc \<le> score_key e) current_scores)"
  let ?S = "list_sort_reverse score_key current_scores"
  have key: "score_key ?x = sc" by (simp add: score_key_def)
  from sort_appended_split [of score_key current_scores ?x]
  obtain ys zs where split: "list_sort_reverse score_key (current_scores @ [?x]) = ys @ ?x # zs"
    and old: "?S = ys @ zs" and len: "length ys = ?n"
    unfolding key by blast
  have res: "add_highscore name sc current_scores t = take 10 (ys @ ?x # zs)"
    by (simp add: add_highscore_def MAX_HIGHSCORES_def split)
  have front: "take ?n ?S = ys" and rest: "drop ?n ?S = zs"
    unfolding old using len by simp_all
  have whole: "add_highscore name sc current_scores t
      = take MAX_HIGHSCORES (take ?n ?S @ ?x # drop ?n ?S)"
    unfolding front rest res by (simp add: MAX_HIGHSCORES_def)
  have within: "?n < length (add_highscore name sc current_scores t)
       \<and> add_highscore name sc current_scores t ! ?n = ?x"
    if "?n < MAX_HIGHSCORES"
  proof -
    from that have ten: "?n < 10" by (simp add: MAX_HIGHSCORES_def)
    from ten len have "?n < length (take 10 (ys @ ?x # zs))" by simp
    moreover from ten len have "take 10 (ys @ ?x # zs) ! ?n = ?x"
      by (simp add: nth_append)
    ultimately show ?thesis by (simp only: res)
  qed
  have beyond: "add_highscore name sc current_scores t = take MAX_HIGHSCORES ?S"
    if "MAX_HIGHSCORES \<le> ?n"
  proof -
    from that len have "10 \<le> length ys" by (simp add: MAX_HIGHSCORES_def)
    then have "take 10 (ys @ ?x # zs) = take 10 (ys @ zs)" by simp
    then show ?thesis unfolding res old by (simp add: MAX_HIGHSCORES_def)
  qed
  from whole within beyond show ?thesis by blast
qed

theorem add_highscore_no_validation_witness:
  "length (filter (\<lambda>e. (-1) \<le> score_key e) [sample_entry ''Ada'' 5, sample_entry ''Bob'' 7])
      < MAX_HIGHSCORES
   \<and> add_highscore [] (-1) [sample_entry ''Ada'' 5, sample_entry ''Bob'' 7] ''2024-01-02 09:30'' ! 2
       = \<lparr>entry_name = [], entry_score = Some (-1), entry_date = ''2024-01-02 09:30''\<rparr>
   \<and> length (filter (\<lambda>e. 6 \<le> score_key e) [sample_entry ''Ada'' 5, sample_entry ''Bob'' 7])
      < MAX_HIGHSCORES
   \<and> add_highscore ''  a name of more than twenty characters '' 6
        [sample_entry ''Ada'' 5, sample_entry ''Bob'' 7] ''2024-01-02 09:30'' ! 1
       = \<lparr>entry_name = ''  a name of more than twenty characters '', entry_score = Some 6,
           entry_date = ''2024-01-02 09:30''\<rparr>
   \<and> 20 < length ''  a name of more than twenty characters ''
   \<and> MAX_HIGHSCORES \<le> length (filter (\<lambda>e. 3 \<le> score_key e) full_board)
   \<and> list_sort_reverse score_key full_board = full_board
   \<and> add_highscore '' Zed '' 3 full_board ''2024-01-02 09:30'' = full_board"
proof -
  let ?two = "[sample_entry ''Ada'' 5, sample_entry ''Bob'' 7]"
  let ?long = "''  a name of more than twenty characters ''"
  have n1: "length (filter (\<lambda>e. (-1) \<le> score_key e) ?two) = 2"
    and n2: "length (filter (\<lambda>e. 6 \<le> score_key e) ?two) = 1"
    by (simp_all add: sample_entry_def score_key_def)
  have n3: "length (filter (\<lambda>e. 3 \<le> score_key e) full_board) = 10"
    by (simp add: full_board_def sample_entry_def score_key_def)
  have srt: "list_sort_reverse score_key full_board = full_board"
    by (simp add: full_board_def sample_entry_def score_key_def)
  have len: "length full_board = 10" by (simp add: full_board_def)
  from add_highscore_no_validation [of "[]" "-1" ?two "''2024-01-02 09:30''"]
  have a: "add_highscore [] (-1) ?two ''2024-01-02 09:30'' ! 2
       = \<lparr>entry_name = [], entry_score = Some (-1), entry_date = ''2024-01-02 09:30''\<rparr>"
    unfolding n1 by (simp add: MAX_HIGHSCORES_def)
  from add_highscore_no_validation [of ?long 6 ?two "''2024-01-02 09:30''"]
  have b: "add_highscore ?long 6 ?two ''2024-01-02 09:30'' ! 1
       = \<lparr>entry_name = ?long, entry_score = Some 6, entry_date = ''2024-01-02 09:30''\<rparr>"
    unfolding n2 by (simp add: MAX_HIGHSCORES_def)
  from add_highscore_no_validation [of "'' Zed ''" 3 full_board "''2024-01-02 09:30''"]
  have c: "add_highscore '' Zed '' 3 full_board ''2024-01-02 09:30'' = full_board"
    unfolding n3 srt using len by (simp add: MAX_HIGHSCORES_def)
  from n1 n2 n3 srt a b c show ?thesis by (simp add: MAX_HIGHSCORES_def)
qed

text \<open>
  Claim C10 as stated fails on a full leaderboard: ten entries of score 5 leave no room for
  a new entry of score -1, which the cut to ten entries drops.
\<close>

theorem full_board_drops_entry_counterexample:
  "length full_board = 10
   \<and> add_highscore [] (-1) full_board ''2024-01-02 09:30'' = full_board
   \<and> \<lparr>entry_name = [], entry_score = Some (-1), entry_date = ''2024-01-02 09:30''\<rparr>
       \<notin> set (add_highscore [] (-1) full_board ''2024-01-02 09:30'')"
  by (simp add: add_highscore_def full_board_def sample_entry_def score_key_def MAX_HIGHSCORES_def)

end
